theory Spec2Isabelle
  imports Main
begin

section \<open>The Scala to PySpark line rewriter (quinn/scala_to_pyspark.py)\<close>

text \<open>
  A Python \<open>str\<close> is a sequence of code points. This development reads a \<^typ>\<open>char\<close> as
  the code point of the same number, so it covers the strings whose code points are below
  256; every literal of the source is ASCII. A line is a \<^typ>\<open>string\<close> that carries its
  own terminator, as \<open>readlines\<close> returns it.
\<close>

subsection \<open>Character classes\<close>

abbreviation NL :: char where
  "NL \<equiv> CHR 0x0A"

abbreviation CR :: char where
  "CR \<equiv> CHR 0x0D"

text \<open>
  \<open>str.isspace\<close>, which is also what \<open>\s\<close> matches in a \<open>str\<close> pattern: tab, line feed,
  vertical tab, form feed, carriage return, the four separators 28 to 31, the space, NEL
  (133) and the no-break space (160).
\<close>

definition is_space :: "char \<Rightarrow> bool" where
  "is_space c =
     (let n = (of_char c :: nat)
      in (9 \<le> n \<and> n \<le> 13) \<or> (28 \<le> n \<and> n \<le> 32) \<or> n = 133 \<or> n = 160)"

text \<open>
  What \<open>\w\<close> matches in a \<open>str\<close> pattern: the underscore and the alphanumeric code points
  (digits, letters, and in the upper half the ordinal indicators, the superscript digits,
  the micro sign, the vulgar fractions and the accented letters).
\<close>

definition is_word :: "char \<Rightarrow> bool" where
  "is_word c =
     (let n = (of_char c :: nat)
      in (48 \<le> n \<and> n \<le> 57) \<or> (65 \<le> n \<and> n \<le> 90) \<or> n = 95 \<or> (97 \<le> n \<and> n \<le> 122)
         \<or> n = 170 \<or> n = 178 \<or> n = 179 \<or> n = 181 \<or> n = 185 \<or> n = 186
         \<or> (188 \<le> n \<and> n \<le> 190) \<or> (192 \<le> n \<and> n \<le> 214)
         \<or> (216 \<le> n \<and> n \<le> 246) \<or> (248 \<le> n \<and> n \<le> 255))"

text \<open>The dot of a pattern compiled without \<open>DOTALL\<close>: any character but the line feed.\<close>

definition is_dot :: "char \<Rightarrow> bool" where
  "is_dot c = (c \<noteq> NL)"

subsection \<open>String methods\<close>

text \<open>\<open>s.startswith(p)\<close>.\<close>

fun startswith :: "string \<Rightarrow> string \<Rightarrow> bool" where
  "startswith s [] = True"
| "startswith [] (p # ps) = False"
| "startswith (c # cs) (p # ps) = (c = p \<and> startswith cs ps)"

text \<open>\<open>s.lstrip()\<close> and \<open>s.strip()\<close>, which remove the characters of \<open>str.isspace\<close>.\<close>

definition lstrip :: "string \<Rightarrow> string" where
  "lstrip s = dropWhile is_space s"

definition rstrip :: "string \<Rightarrow> string" where
  "rstrip s = rev (dropWhile is_space (rev s))"

definition strip :: "string \<Rightarrow> string" where
  "strip s = rstrip (lstrip s)"

text \<open>
  \<open>s.replace(old, new)\<close>: every occurrence of \<open>old\<close>, found from the left and not
  overlapping the one before, becomes \<open>new\<close>. With an empty \<open>old\<close> Python puts \<open>new\<close>
  before every character and at the end.
\<close>

fun replace :: "string \<Rightarrow> string \<Rightarrow> string \<Rightarrow> string" where
  "replace [] old new = (if old = [] then new else [])"
| "replace (c # cs) old new =
     (if old = [] then new @ c # replace cs old new
      else if startswith (c # cs) old then new @ replace (drop (length old) (c # cs)) old new
      else c # replace cs old new)"

text \<open>
  \<open>s.split(sep)\<close> for a separator that is not empty (Python raises \<open>ValueError\<close> on an
  empty one; the source passes the literals \<open>", "\<close> and \<open>": "\<close> only). The pieces between
  the occurrences of \<open>sep\<close>, found from the left; \<open>cur\<close> holds the piece being read, reversed.
\<close>

fun split_from :: "string \<Rightarrow> string \<Rightarrow> string \<Rightarrow> string list" where
  "split_from cur [] sep = [rev cur]"
| "split_from cur (c # cs) sep =
     (if sep \<noteq> [] \<and> startswith (c # cs) sep
      then rev cur # split_from [] (drop (length sep) (c # cs)) sep
      else split_from (c # cur) cs sep)"

definition split_str :: "string \<Rightarrow> string \<Rightarrow> string list" where
  "split_str s sep = split_from [] s sep"

text \<open>\<open>sep.join(xs)\<close>.\<close>

fun join :: "string \<Rightarrow> string list \<Rightarrow> string" where
  "join sep [] = []"
| "join sep [x] = x"
| "join sep (x # y # ys) = x @ sep @ join sep (y # ys)"

subsection \<open>The signature pattern\<close>

text \<open>
  \<open>re.search(r"(\s*)def (\w+).*\((.*)\)", s)\<close> is run by a backtracking matcher. A greedy
  repetition of a character class first takes one more character, when the next one is in
  the class, and goes on with the rest of the pattern only when that has failed:
  \<open>greedy P k acc s\<close> has read \<open>rev acc\<close> so far and calls the rest of the pattern \<open>k\<close> with
  the text the repetition took and the text after it. The first success is the match.
\<close>

fun greedy :: "(char \<Rightarrow> bool) \<Rightarrow> (string \<Rightarrow> string \<Rightarrow> 'a option) \<Rightarrow> string \<Rightarrow> string \<Rightarrow> 'a option"
  where
  "greedy P k acc [] = k (rev acc) []"
| "greedy P k acc (c # cs) =
     (if P c
      then (case greedy P k (c # acc) cs of
              Some m \<Rightarrow> Some m
            | None \<Rightarrow> k (rev acc) (c # cs))
      else k (rev acc) (c # cs))"

text \<open>The groups 1, 2 and 3 of a match: the whitespace, the name and the parameter text.\<close>

type_synonym groups = "string \<times> string \<times> string"

text \<open>\<open>(.*)\)\<close>, the third group and the closing parenthesis.\<close>

definition match_args :: "string \<Rightarrow> string \<Rightarrow> string \<Rightarrow> groups option" where
  "match_args g1 g2 s =
     greedy is_dot (\<lambda>g3 r. if startswith r '')'' then Some (g1, g2, g3) else None) [] s"

text \<open>\<open>.*\(\<close>, whatever stands between the name and an opening parenthesis.\<close>

definition match_open :: "string \<Rightarrow> string \<Rightarrow> string \<Rightarrow> groups option" where
  "match_open g1 g2 s =
     greedy is_dot
       (\<lambda>skipped r. if startswith r ''('' then match_args g1 g2 (drop 1 r) else None) [] s"

text \<open>\<open>(\w+)\<close>, the second group: one word character at least.\<close>

definition match_name :: "string \<Rightarrow> string \<Rightarrow> groups option" where
  "match_name g1 s =
     greedy is_word (\<lambda>g2 r. if g2 = [] then None else match_open g1 g2 r) [] s"

text \<open>\<open>(\s*)def \<close>, the first group and the keyword with its space: the pattern at one position.\<close>

definition match_here :: "string \<Rightarrow> groups option" where
  "match_here s =
     greedy is_space
       (\<lambda>g1 r. if startswith r ''def '' then match_name g1 (drop 4 r) else None) [] s"

text \<open>\<open>re.search\<close> tries the positions from the left, the end of the string included.\<close>

fun re_search :: "string \<Rightarrow> groups option" where
  "re_search [] = match_here []"
| "re_search (c # cs) =
     (case match_here (c # cs) of
        Some m \<Rightarrow> Some m
      | None \<Rightarrow> re_search cs)"

subsection \<open>The signature cleaner\<close>

text \<open>
  \<open>clean_args\<close>: the index 0 of \<open>a.split(": ")\<close> is read with \<^const>\<open>hd\<close>; the list that
  \<open>str.split\<close> returns is never empty.
\<close>

definition clean_args :: "string \<Rightarrow> string" where
  "clean_args args = join '', '' (map (\<lambda>a. hd (split_str a '': '')) (split_str args '', ''))"

definition clean_function_definition :: "string \<Rightarrow> string" where
  "clean_function_definition s =
     (case re_search s of
        Some (whitespace, method_name, args) \<Rightarrow>
          whitespace @ ''def '' @ method_name @ ''('' @ clean_args args @ ''):'' @ [NL]
      | None \<Rightarrow> s)"

subsection \<open>The stages of \<open>lines\<close>\<close>

text \<open>Each assignment to \<open>result\<close> after the read is one stage, in the order of the source.\<close>

definition remove_package :: "string list \<Rightarrow> string list" where
  "remove_package result = filter (\<lambda>line. \<not> startswith line ''package'') result"

definition dataframe_import :: string where
  "dataframe_import = ''from pyspark.sql.dataframe import DataFrame'' @ [NL]"

definition functions_import :: string where
  "functions_import = ''import pyspark.sql.functions as F'' @ [NL]"

definition replace_dataframe_import :: "string list \<Rightarrow> string list" where
  "replace_dataframe_import result =
     map (\<lambda>x. if startswith x ''import org.apache.spark.sql.DataFrame''
              then dataframe_import else x) result"

definition replace_functions_import :: "string list \<Rightarrow> string list" where
  "replace_functions_import result =
     map (\<lambda>x. if startswith x ''import org.apache.spark.sql.functions''
              then functions_import else x) result"

definition remove_scala_imports :: "string list \<Rightarrow> string list" where
  "remove_scala_imports result = filter (\<lambda>line. \<not> startswith line ''import scala'') result"

definition remove_val :: "string list \<Rightarrow> string list" where
  "remove_val result = map (\<lambda>x. replace x ''val '' []) result"

definition remove_var :: "string list \<Rightarrow> string list" where
  "remove_var result = map (\<lambda>x. replace x ''var '' []) result"

definition remove_closing_braces :: "string list \<Rightarrow> string list" where
  "remove_closing_braces result = filter (\<lambda>line. strip line \<noteq> ''}'') result"

definition clean_definitions :: "string list \<Rightarrow> string list" where
  "clean_definitions result =
     map (\<lambda>x. if startswith (lstrip x) ''def'' then clean_function_definition x else x) result"

definition prefix_col :: "string list \<Rightarrow> string list" where
  "prefix_col result = map (\<lambda>x. replace x ''col('' ''F.col('') result"

definition replace_null :: "string list \<Rightarrow> string list" where
  "replace_null result = map (\<lambda>x. replace x ''null'' ''None'') result"

definition replace_true :: "string list \<Rightarrow> string list" where
  "replace_true result = map (\<lambda>x. replace x ''true'' ''True'') result"

definition replace_false :: "string list \<Rightarrow> string list" where
  "replace_false result = map (\<lambda>x. replace x ''false'' ''False'') result"

text \<open>The chain that \<open>lines\<close> runs on what \<open>readlines\<close> returned.\<close>

definition rewrite :: "string list \<Rightarrow> string list" where
  "rewrite result =
     replace_false (replace_true (replace_null (prefix_col (clean_definitions
       (remove_closing_braces (remove_var (remove_val (remove_scala_imports
         (replace_functions_import (replace_dataframe_import
           (remove_package result)))))))))))"

subsection \<open>Reading the file\<close>

text \<open>
  \<open>open(path, "r")\<close> reads text with universal newlines: \<open>\r\n\<close> and a lone \<open>\r\<close> arrive as
  \<open>\n\<close>, and \<open>readlines\<close> cuts after every \<open>\n\<close>. \<open>cur\<close> holds the line being read, reversed.
\<close>

fun readlines_from :: "string \<Rightarrow> string \<Rightarrow> string list" where
  "readlines_from cur [] = (if cur = [] then [] else [rev cur])"
| "readlines_from cur (c # cs) =
     (if c = NL then rev (NL # cur) # readlines_from [] cs
      else if c = CR then rev (NL # cur) # readlines_from [] (if startswith cs [NL] then drop 1 cs else cs)
      else readlines_from (c # cur) cs)"

definition readlines :: "string \<Rightarrow> string list" where
  "readlines text_file = readlines_from [] text_file"

text \<open>
  The object holds the path. The world outside is the file system: the decoded text of
  each file that can be opened and read. \<open>open\<close> raises on any other path, and \<open>lines\<close>
  lets the exception through.
\<close>

record ScalaToPyspark =
  scala_path :: string

record world =
  files :: "string \<rightharpoonup> string"

datatype error = OSError

text \<open>
  \<open>lines\<close> with the world passed through: the result or the exception, and the world
  after the call. The source opens the file for reading only and assigns no attribute.
\<close>

definition lines :: "ScalaToPyspark \<Rightarrow> world \<Rightarrow> (error + string list) \<times> world" where
  "lines self w =
     (case files w (scala_path self) of
        None \<Rightarrow> (Inl OSError, w)
      | Some text_file \<Rightarrow> (Inr (rewrite (readlines text_file)), w))"

subsection \<open>Occurrences\<close>


subsection \<open>The cleaned parameter list, in the words of the specification\<close>

text \<open>The part of an entry before its first \<open>": "\<close>, the whole entry when it has none.\<close>

fun before_colon :: "string \<Rightarrow> string" where
  "before_colon [] = []"
| "before_colon [c] = [c]"
| "before_colon (c # d # s) =
     (if c = CHR '':'' \<and> d = CHR '' '' then [] else c # before_colon (d # s))"

text \<open>
  Split the raw parameter text on \<open>", "\<close>, keep of each entry the part before the first
  \<open>": "\<close>, join again with \<open>", "\<close>.
\<close>

definition spec_cleaned_args :: "string \<Rightarrow> string" where
  "spec_cleaned_args raw = join '', '' (map before_colon (split_str raw '', ''))"

text \<open>Whether \<open>": "\<close> occurs in a text.\<close>

fun has_colon_space :: "string \<Rightarrow> bool" where
  "has_colon_space [] = False"
| "has_colon_space [c] = False"
| "has_colon_space (c # d # s) = ((c = CHR '':'' \<and> d = CHR '' '') \<or> has_colon_space (d # s))"

section \<open>Properties\<close>

subsection \<open>The chain, stage by stage\<close>

lemmas stage_defs =
  remove_package_def replace_dataframe_import_def replace_functions_import_def
  remove_scala_imports_def remove_val_def remove_var_def remove_closing_braces_def
  clean_definitions_def prefix_col_def replace_null_def replace_true_def replace_false_def

lemma stage_append:
  "remove_package (xs @ ys) = remove_package xs @ remove_package ys"
  "replace_dataframe_import (xs @ ys) = replace_dataframe_import xs @ replace_dataframe_import ys"
  "replace_functions_import (xs @ ys) = replace_functions_import xs @ replace_functions_import ys"
  "remove_scala_imports (xs @ ys) = remove_scala_imports xs @ remove_scala_imports ys"
  "remove_val (xs @ ys) = remove_val xs @ remove_val ys"
  "remove_var (xs @ ys) = remove_var xs @ remove_var ys"
  "remove_closing_braces (xs @ ys) = remove_closing_braces xs @ remove_closing_braces ys"
  "clean_definitions (xs @ ys) = clean_definitions xs @ clean_definitions ys"
  "prefix_col (xs @ ys) = prefix_col xs @ prefix_col ys"
  "replace_null (xs @ ys) = replace_null xs @ replace_null ys"
  "replace_true (xs @ ys) = replace_true xs @ replace_true ys"
  "replace_false (xs @ ys) = replace_false xs @ replace_false ys"
  unfolding stage_defs by (rule map_append filter_append)+

lemma rewrite_append: "rewrite (xs @ ys) = rewrite xs @ rewrite ys"
  unfolding rewrite_def by (simp only: stage_append)


lemma rewrite_insert: "rewrite (xs @ l # ys) = rewrite xs @ rewrite [l] @ rewrite ys"
  using rewrite_append [of xs "[l] @ ys"] rewrite_append [of "[l]" ys] by simp

lemma stage_length:
  "length (remove_package xs) \<le> length xs"
  "length (replace_dataframe_import xs) \<le> length xs"
  "length (replace_functions_import xs) \<le> length xs"
  "length (remove_scala_imports xs) \<le> length xs"
  "length (remove_val xs) \<le> length xs"
  "length (remove_var xs) \<le> length xs"
  "length (remove_closing_braces xs) \<le> length xs"
  "length (clean_definitions xs) \<le> length xs"
  "length (prefix_col xs) \<le> length xs"
  "length (replace_null xs) \<le> length xs"
  "length (replace_true xs) \<le> length xs"
  "length (replace_false xs) \<le> length xs"
  unfolding stage_defs by (rule length_filter_le | simp only: length_map order_refl)+

lemma rewrite_length: "length (rewrite xs) \<le> length xs"
  unfolding rewrite_def
  by (rule order_trans [OF stage_length(12)], rule order_trans [OF stage_length(11)],
      rule order_trans [OF stage_length(10)], rule order_trans [OF stage_length(9)],
      rule order_trans [OF stage_length(8)], rule order_trans [OF stage_length(7)],
      rule order_trans [OF stage_length(6)], rule order_trans [OF stage_length(5)],
      rule order_trans [OF stage_length(4)], rule order_trans [OF stage_length(3)],
      rule order_trans [OF stage_length(2)], rule stage_length(1))

text \<open>
  C7. The output of the chain has at most as many lines as its input, and so has the
  output of each of the twelve stages: none of them adds a line.
\<close>

theorem line_count_never_grows:
  "length (rewrite xs) \<le> length xs
   \<and> length (remove_package xs) \<le> length xs
   \<and> length (replace_dataframe_import xs) \<le> length xs
   \<and> length (replace_functions_import xs) \<le> length xs
   \<and> length (remove_scala_imports xs) \<le> length xs
   \<and> length (remove_val xs) \<le> length xs
   \<and> length (remove_var xs) \<le> length xs
   \<and> length (remove_closing_braces xs) \<le> length xs
   \<and> length (clean_definitions xs) \<le> length xs
   \<and> length (prefix_col xs) \<le> length xs
   \<and> length (replace_null xs) \<le> length xs
   \<and> length (replace_true xs) \<le> length xs
   \<and> length (replace_false xs) \<le> length xs"
  by (intro conjI rewrite_length stage_length)

text \<open>
  C9. The chain distributes over concatenation: running it on \<open>xs @ ys\<close> gives the output
  for \<open>xs\<close> followed by the output for \<open>ys\<close>. No stage looks at more than one line.
\<close>

theorem rewrite_distributes_over_append:
  "rewrite (xs @ ys) = rewrite xs @ rewrite ys"
  by (rule rewrite_append)

subsection \<open>Facts about the string methods\<close>

lemma startswith_iff: "startswith s p \<longleftrightarrow> (\<exists>r. s = p @ r)"
  by (induction s p rule: startswith.induct) auto

lemma not_startswith_hd: "p \<noteq> [] \<Longrightarrow> s \<noteq> [] \<Longrightarrow> hd s \<noteq> hd p \<Longrightarrow> \<not> startswith s p"
  by (cases s; cases p) auto

lemma replace_absent: "old \<noteq> [] \<Longrightarrow> hd old \<notin> set s \<Longrightarrow> replace s old new = s"
proof (induction s)
  case Nil
  then show ?case by simp
next
  case (Cons c cs)
  then have "\<not> startswith (c # cs) old" by (cases old) auto
  with Cons show ?case by simp
qed

subsection \<open>Lines that are a closing brace\<close>

lemma set_dropWhile_cover: "set s \<subseteq> set (dropWhile P s) \<union> {c. P c}"
  by (induction s) auto

lemma set_strip_cover: "set s \<subseteq> set (strip s) \<union> {c. is_space c}"
proof -
  have "set (lstrip s) \<subseteq> set (strip s) \<union> {c. is_space c}"
    using set_dropWhile_cover [of "rev (lstrip s)" is_space]
    by (simp add: strip_def rstrip_def)
  moreover have "set s \<subseteq> set (lstrip s) \<union> {c. is_space c}"
    unfolding lstrip_def by (rule set_dropWhile_cover)
  ultimately show ?thesis by blast
qed

lemma filter_dropWhile_not: "filter (\<lambda>c. \<not> P c) (dropWhile P s) = filter (\<lambda>c. \<not> P c) s"
  by (induction s) auto

lemma visible_strip: "filter (\<lambda>c. \<not> is_space c) (strip s) = filter (\<lambda>c. \<not> is_space c) s"
proof -
  have "filter (\<lambda>c. \<not> is_space c) (rstrip t) = filter (\<lambda>c. \<not> is_space c) t" for t
    using filter_dropWhile_not [of is_space "rev t"]
    by (simp add: rstrip_def rev_filter [symmetric])
  then show ?thesis
    by (simp add: strip_def lstrip_def filter_dropWhile_not)
qed

lemma strip_Nil: "strip [] = []"
  by (simp add: strip_def lstrip_def rstrip_def)

lemma brace_line_facts:
  assumes "strip l = ''}''"
  shows "l \<noteq> []" and "is_space (hd l) \<or> hd l = CHR ''}''" and "CHR ''v'' \<notin> set l"
proof -
  show ne: "l \<noteq> []" using assms strip_Nil by auto
  have cover: "set l \<subseteq> {CHR ''}''} \<union> {c. is_space c}"
    using set_strip_cover [of l] assms by simp
  from ne have "hd l \<in> set l" by simp
  with cover show "is_space (hd l) \<or> hd l = CHR ''}''" by auto
  have "\<not> is_space (CHR ''v'')" by (simp add: is_space_def)
  with cover show "CHR ''v'' \<notin> set l" by auto
qed

lemma brace_line_dropped:
  assumes "strip l = ''}''"
  shows "rewrite [l] = []"
proof -
  note f = brace_line_facts [OF assms]
  have p: "\<not> is_space (CHR ''p'')" "\<not> is_space (CHR ''i'')" by (simp_all add: is_space_def)
  from f(1,2) p have a: "\<not> startswith l ''package''"
    by (intro not_startswith_hd) auto
  from f(1,2) p have b: "\<not> startswith l ''import org.apache.spark.sql.DataFrame''"
    by (intro not_startswith_hd) auto
  from f(1,2) p have c: "\<not> startswith l ''import org.apache.spark.sql.functions''"
    by (intro not_startswith_hd) auto
  from f(1,2) p have d: "\<not> startswith l ''import scala''"
    by (intro not_startswith_hd) auto
  from f(3) have e: "replace l ''val '' [] = l" "replace l ''var '' [] = l"
    by (simp_all add: replace_absent)
  have 1: "remove_package [l] = [l]" using a by (simp add: remove_package_def)
  have 2: "replace_dataframe_import [l] = [l]" using b by (simp add: replace_dataframe_import_def)
  have 3: "replace_functions_import [l] = [l]" using c by (simp add: replace_functions_import_def)
  have 4: "remove_scala_imports [l] = [l]" using d by (simp add: remove_scala_imports_def)
  have 5: "remove_val [l] = [l]" "remove_var [l] = [l]"
    using e by (simp_all add: remove_val_def remove_var_def)
  have 6: "remove_closing_braces [l] = []" using assms by (simp add: remove_closing_braces_def)
  have 7: "replace_false (replace_true (replace_null (prefix_col (clean_definitions [])))) = []"
    by (simp add: clean_definitions_def prefix_col_def replace_null_def replace_true_def
        replace_false_def)
  show ?thesis unfolding rewrite_def by (simp only: 1 2 3 4 5 6 7)
qed

text \<open>
  C6. A line whose stripped text is the single closing brace leaves no trace in the output
  of the chain: the output is what it would be without the line. The brace filter keeps,
  in place and unchanged, every line that has two visible characters or more, so a brace
  with other content beside it stays.
\<close>

theorem closing_brace_lines:
  "(strip l = ''}'' \<longrightarrow> rewrite (xs @ l # ys) = rewrite (xs @ ys))
   \<and> (2 \<le> length (filter (\<lambda>c. \<not> is_space c) l) \<longrightarrow>
        remove_closing_braces (xs @ l # ys)
          = remove_closing_braces xs @ l # remove_closing_braces ys)"
proof (intro conjI impI)
  assume "strip l = ''}''"
  then show "rewrite (xs @ l # ys) = rewrite (xs @ ys)"
    using rewrite_insert [of xs l ys] rewrite_append [of xs ys] brace_line_dropped [of l]
    by simp
next
  assume two: "2 \<le> length (filter (\<lambda>c. \<not> is_space c) l)"
  have "strip l \<noteq> ''}''"
  proof
    assume "strip l = ''}''"
    then have "length (filter (\<lambda>c. \<not> is_space c) (strip l)) \<le> 1" by simp
    with two show False by (simp only: visible_strip)
  qed
  then show "remove_closing_braces (xs @ l # ys)
      = remove_closing_braces xs @ l # remove_closing_braces ys"
    by (simp add: remove_closing_braces_def)
qed

theorem closing_brace_lines_witness:
  "strip (''  }'' @ [NL]) = ''}''
   \<and> rewrite ([''a = 1''] @ (''  }'' @ [NL]) # [''b = 2'']) = rewrite ([''a = 1''] @ [''b = 2''])
   \<and> 2 \<le> length (filter (\<lambda>c. \<not> is_space c) ''x = foo() }'')
   \<and> remove_closing_braces ([] @ ''x = foo() }'' # [])
        = remove_closing_braces [] @ ''x = foo() }'' # remove_closing_braces []"
  using closing_brace_lines [of "''  }'' @ [NL]" "[''a = 1'']" "[''b = 2'']"]
    closing_brace_lines [of "''x = foo() }''" "[]" "[]"]
  by (simp add: strip_def lstrip_def rstrip_def is_space_def)

subsection \<open>Package lines\<close>

lemma lstrip_visible: "s \<noteq> [] \<Longrightarrow> \<not> is_space (hd s) \<Longrightarrow> lstrip s = s"
  by (cases s) (simp_all add: lstrip_def)

lemma package_line_dropped:
  assumes "startswith l ''package''"
  shows "rewrite [l] = []"
proof -
  have 1: "remove_package [l] = []" using assms by (simp add: remove_package_def)
  have 2: "replace_false (replace_true (replace_null (prefix_col (clean_definitions
       (remove_closing_braces (remove_var (remove_val (remove_scala_imports
         (replace_functions_import (replace_dataframe_import [])))))))))) = []"
    by (simp add: stage_defs)
  show ?thesis unfolding rewrite_def by (simp only: 1 2)
qed

text \<open>
  C3, as the code has it. A line that begins with \<open>package\<close> at its first character is
  taken out by the first stage and leaves no trace in the output of the chain. Every other
  line is kept by that stage, in place and unchanged: all the lines whose left-trimmed
  text does not begin with \<open>package\<close>, and the indented package lines as well.
\<close>

theorem package_lines:
  "(startswith l ''package'' \<longrightarrow>
      rewrite (xs @ l # ys) = rewrite (xs @ ys)
      \<and> remove_package (xs @ l # ys) = remove_package xs @ remove_package ys)
   \<and> (\<not> startswith l ''package'' \<longrightarrow>
        remove_package (xs @ l # ys) = remove_package xs @ l # remove_package ys)
   \<and> (\<not> startswith (lstrip l) ''package'' \<longrightarrow> \<not> startswith l ''package'')"
proof (intro conjI impI)
  assume p: "startswith l ''package''"
  show "rewrite (xs @ l # ys) = rewrite (xs @ ys)"
    using rewrite_insert [of xs l ys] rewrite_append [of xs ys] package_line_dropped [OF p]
    by simp
  show "remove_package (xs @ l # ys) = remove_package xs @ remove_package ys"
    using p by (simp add: remove_package_def)
next
  assume "\<not> startswith l ''package''"
  then show "remove_package (xs @ l # ys) = remove_package xs @ l # remove_package ys"
    by (simp add: remove_package_def)
next
  assume n: "\<not> startswith (lstrip l) ''package''"
  show "\<not> startswith l ''package''"
  proof
    assume p: "startswith l ''package''"
    then obtain r where "l = ''package'' @ r" by (auto simp: startswith_iff)
    then have "lstrip l = l" by (intro lstrip_visible) (simp_all add: is_space_def)
    with n p show False by simp
  qed
qed

theorem package_lines_witness:
  "startswith (''package com.example.foo'' @ [NL]) ''package''
   \<and> rewrite ([''a = 1''] @ (''package com.example.foo'' @ [NL]) # [''b = 2''])
       = rewrite ([''a = 1''] @ [''b = 2''])
   \<and> \<not> startswith (lstrip ''object Foo {'') ''package''
   \<and> remove_package ([] @ ''object Foo {'' # []) = remove_package [] @ ''object Foo {'' # remove_package []"
  using package_lines [of "''package com.example.foo'' @ [NL]" "[''a = 1'']" "[''b = 2'']"]
    package_lines [of "''object Foo {''" "[]" "[]"]
  by (simp add: lstrip_def is_space_def)

text \<open>
  An indented package line stays: its left-trimmed text begins with \<open>package\<close>, the line
  itself does not, and it comes out of the chain as it went in.
\<close>

theorem indented_package_line_kept:
  "startswith (lstrip (''  package com.example.foo'' @ [NL])) ''package''
   \<and> rewrite [''  package com.example.foo'' @ [NL]] = [''  package com.example.foo'' @ [NL]]"
  by code_simp

subsection \<open>The data-frame import\<close>

lemma dataframe_import_stays:
  "replace_false (replace_true (replace_null (prefix_col (clean_definitions
     (remove_closing_braces (remove_var (remove_val (remove_scala_imports
       (replace_functions_import [dataframe_import])))))))))
   = [dataframe_import]"
  by code_simp

lemma dataframe_line_replaced:
  assumes "startswith l ''import org.apache.spark.sql.DataFrame''"
  shows "rewrite [l] = [dataframe_import]"
proof -
  from assms obtain r where "l = ''import org.apache.spark.sql.DataFrame'' @ r"
    by (auto simp: startswith_iff)
  then have "\<not> startswith l ''package''" by simp
  then have 1: "remove_package [l] = [l]" by (simp add: remove_package_def)
  have 2: "replace_dataframe_import [l] = [dataframe_import]"
    using assms by (simp add: replace_dataframe_import_def)
  show ?thesis unfolding rewrite_def by (simp only: 1 2 dataframe_import_stays)
qed

text \<open>
  C4, as the code has it. A line that begins with \<open>import org.apache.spark.sql.DataFrame\<close>
  comes out of the chain, in its place, as \<open>from pyspark.sql.dataframe import DataFrame\<close>
  followed by a line feed, whatever followed the prefix on the input line and whether or
  not the input line had a terminator.
\<close>

theorem dataframe_import_line:
  "startswith l ''import org.apache.spark.sql.DataFrame'' \<Longrightarrow>
     rewrite (xs @ l # ys)
       = rewrite xs @ (''from pyspark.sql.dataframe import DataFrame'' @ [NL]) # rewrite ys"
  using rewrite_insert [of xs l ys] dataframe_line_replaced [of l]
  by (simp add: dataframe_import_def)

theorem dataframe_import_line_witness:
  "startswith (''import org.apache.spark.sql.DataFrame'' @ [NL]) ''import org.apache.spark.sql.DataFrame''
   \<and> rewrite ([''x = 5''] @ (''import org.apache.spark.sql.DataFrame'' @ [NL]) # [''y = 6''])
       = rewrite [''x = 5''] @ (''from pyspark.sql.dataframe import DataFrame'' @ [NL]) # rewrite [''y = 6'']"
  using dataframe_import_line [of "''import org.apache.spark.sql.DataFrame'' @ [NL]" "[''x = 5'']" "[''y = 6'']"]
  by simp

text \<open>
  A file that ends without a line feed gives a last line without terminator; as a
  data-frame import it comes out with a line feed that the input line did not carry.
\<close>

theorem dataframe_import_gains_terminator:
  "readlines ''import org.apache.spark.sql.DataFrame'' = [''import org.apache.spark.sql.DataFrame'']
   \<and> rewrite [''import org.apache.spark.sql.DataFrame'']
       = [''from pyspark.sql.dataframe import DataFrame'' @ [NL]]"
  by code_simp

subsection \<open>The greedy repetition\<close>

lemma greedy_None_iff:
  "greedy P k acc s = None \<longleftrightarrow>
     (\<forall>u v. s = u @ v \<and> (\<forall>c\<in>set u. P c) \<longrightarrow> k (rev acc @ u) v = None)"
proof (induction s arbitrary: acc)
  case Nil
  show ?case by simp
next
  case (Cons c cs)
  let ?tail = "\<forall>u v. cs = u @ v \<and> (\<forall>x\<in>set u. P x) \<longrightarrow> k (rev (c # acc) @ u) v = None"
  have split: "(\<forall>u v. c # cs = u @ v \<and> (\<forall>x\<in>set u. P x) \<longrightarrow> k (rev acc @ u) v = None) \<longleftrightarrow>
      k (rev acc) (c # cs) = None \<and> (P c \<longrightarrow> ?tail)"
    (is "?L \<longleftrightarrow> ?R")
  proof
    assume l: ?L
    have "k (rev acc) (c # cs) = None" using l [rule_format, of "[]" "c # cs"] by simp
    moreover have "k (rev (c # acc) @ u) v = None"
      if "P c" "cs = u @ v" "\<forall>x\<in>set u. P x" for u v
      using l [rule_format, of "c # u" v] that by simp
    ultimately show ?R by blast
  next
    assume r: ?R
    show ?L
    proof (intro allI impI)
      fix u v assume a: "c # cs = u @ v \<and> (\<forall>x\<in>set u. P x)"
      show "k (rev acc @ u) v = None"
      proof (cases u)
        case Nil
        with a r show ?thesis by simp
      next
        case (Cons d u')
        with a have "d = c" "cs = u' @ v" "P c" "\<forall>x\<in>set u'. P x" by auto
        with r Cons show ?thesis by simp
      qed
    qed
  qed
  have ih: "greedy P k (c # acc) cs = None \<longleftrightarrow> ?tail" by (rule Cons)
  have "greedy P k acc (c # cs) = None \<longleftrightarrow>
      k (rev acc) (c # cs) = None \<and> (P c \<longrightarrow> greedy P k (c # acc) cs = None)"
    by (simp split: option.splits)
  then show ?case by (simp only: split ih)
qed

lemma greedy_Some:
  assumes "greedy P k acc s = Some m"
  shows "\<exists>u v. s = u @ v \<and> (\<forall>c\<in>set u. P c) \<and> k (rev acc @ u) v = Some m \<and>
     (\<forall>x y. v = x @ y \<and> x \<noteq> [] \<and> (\<forall>c\<in>set x. P c) \<longrightarrow> k (rev acc @ u @ x) y = None)"
  using assms
proof (induction s arbitrary: acc)
  case Nil
  then show ?case by simp
next
  case (Cons c cs)
  show ?case
  proof (cases "P c \<and> greedy P k (c # acc) cs \<noteq> None")
    case True
    with Cons.prems have "greedy P k (c # acc) cs = Some m" by auto
    from Cons.IH [OF this] obtain u v where uv: "cs = u @ v" "\<forall>c\<in>set u. P c"
      "k (rev (c # acc) @ u) v = Some m"
      "\<forall>x y. v = x @ y \<and> x \<noteq> [] \<and> (\<forall>c\<in>set x. P c) \<longrightarrow> k (rev (c # acc) @ u @ x) y = None"
      by blast
    have "c # cs = (c # u) @ v \<and> (\<forall>c\<in>set (c # u). P c) \<and> k (rev acc @ c # u) v = Some m \<and>
     (\<forall>x y. v = x @ y \<and> x \<noteq> [] \<and> (\<forall>c\<in>set x. P c) \<longrightarrow> k (rev acc @ (c # u) @ x) y = None)"
      using True uv by simp
    then show ?thesis by blast
  next
    case False
    with Cons.prems have here: "k (rev acc) (c # cs) = Some m" by (auto split: if_splits)
    have "k (rev acc @ x) y = None" if "c # cs = x @ y" "x \<noteq> []" "\<forall>c\<in>set x. P c" for x y
    proof -
      from that obtain x' where x: "x = c # x'" "cs = x' @ y" by (cases x) auto
      with that have "P c" "\<forall>c\<in>set x'. P c" by auto
      with False have "greedy P k (c # acc) cs = None" by simp
      then have "k (rev (c # acc) @ x') y = None"
        using x \<open>\<forall>c\<in>set x'. P c\<close> by (simp only: greedy_None_iff)
      with x show ?thesis by simp
    qed
    then have "c # cs = [] @ c # cs \<and> (\<forall>c\<in>set []. P c) \<and> k (rev acc @ []) (c # cs) = Some m \<and>
     (\<forall>x y. c # cs = x @ y \<and> x \<noteq> [] \<and> (\<forall>c\<in>set x. P c) \<longrightarrow> k (rev acc @ [] @ x) y = None)"
      using here by simp
    then show ?thesis by blast
  qed
qed

lemma greedy_stop:
  "\<forall>c\<in>set u. P c \<Longrightarrow> v = [] \<or> \<not> P (hd v) \<Longrightarrow> k (rev acc @ u) v = Some m \<Longrightarrow>
     greedy P k acc (u @ v) = Some m"
proof (induction u arbitrary: acc)
  case Nil
  then show ?case by (cases v) auto
next
  case (Cons c u)
  from Cons.prems have "greedy P k (c # acc) (u @ v) = Some m"
    by (intro Cons.IH) auto
  with Cons.prems show ?case by simp
qed

subsection \<open>The pattern on a line of a known shape\<close>

text \<open>
  \<open>p @ t\<close> is what follows the last closing parenthesis: \<open>p\<close> up to the end of the line,
  with no closing parenthesis in it, and \<open>t\<close>, empty or starting with the line feed.
\<close>

lemma is_dot_simps: "c \<noteq> NL \<Longrightarrow> is_dot c" "\<not> is_dot NL"
  by (simp_all add: is_dot_def)

lemma args_none:
  "NL \<notin> set p \<Longrightarrow> CHR '')'' \<notin> set p \<Longrightarrow> t = [] \<or> hd t = NL \<Longrightarrow>
     greedy is_dot (\<lambda>g3 r. if startswith r '')'' then Some (g1, g2, g3) else None) acc (p @ t)
       = None"
proof (induction p arbitrary: acc)
  case Nil
  then show ?case by (cases t) (auto simp: is_dot_simps)
next
  case (Cons c p)
  then show ?case by (auto simp: is_dot_simps)
qed

lemma args_found:
  "NL \<notin> set a \<Longrightarrow> NL \<notin> set p \<Longrightarrow> CHR '')'' \<notin> set p \<Longrightarrow> t = [] \<or> hd t = NL \<Longrightarrow>
     greedy is_dot (\<lambda>g3 r. if startswith r '')'' then Some (g1, g2, g3) else None) acc
       (a @ CHR '')'' # p @ t)
       = Some (g1, g2, rev acc @ a)"
proof (induction a arbitrary: acc)
  case Nil
  then show ?case by (auto simp: is_dot_simps args_none)
next
  case (Cons c a)
  then show ?case by (auto simp: is_dot_simps)
qed

lemma match_args_none:
  "NL \<notin> set p \<Longrightarrow> CHR '')'' \<notin> set p \<Longrightarrow> t = [] \<or> hd t = NL \<Longrightarrow>
     match_args g1 g2 (p @ t) = None"
  unfolding match_args_def by (rule args_none)

lemma match_args_found:
  "NL \<notin> set a \<Longrightarrow> NL \<notin> set p \<Longrightarrow> CHR '')'' \<notin> set p \<Longrightarrow> t = [] \<or> hd t = NL \<Longrightarrow>
     match_args g1 g2 (a @ CHR '')'' # p @ t) = Some (g1, g2, a)"
  unfolding match_args_def using args_found [of a p t g1 g2 "[]"] by simp

lemma open_none_after:
  "NL \<notin> set p \<Longrightarrow> CHR '')'' \<notin> set p \<Longrightarrow> t = [] \<or> hd t = NL \<Longrightarrow>
     greedy is_dot
       (\<lambda>skipped r. if startswith r ''('' then match_args g1 g2 (drop 1 r) else None) acc (p @ t)
       = None"
proof (induction p arbitrary: acc)
  case Nil
  then show ?case by (cases t) (auto simp: is_dot_simps)
next
  case (Cons c p)
  then show ?case by (auto simp: is_dot_simps match_args_none)
qed

lemma open_none_inside:
  "NL \<notin> set a \<Longrightarrow> CHR ''('' \<notin> set a \<Longrightarrow>
   NL \<notin> set p \<Longrightarrow> CHR '')'' \<notin> set p \<Longrightarrow> t = [] \<or> hd t = NL \<Longrightarrow>
     greedy is_dot
       (\<lambda>skipped r. if startswith r ''('' then match_args g1 g2 (drop 1 r) else None) acc
       (a @ CHR '')'' # p @ t)
       = None"
proof (induction a arbitrary: acc)
  case Nil
  then show ?case by (auto simp: is_dot_simps open_none_after)
next
  case (Cons c a)
  then show ?case by (auto simp: is_dot_simps)
qed

lemma open_found:
  "NL \<notin> set pre \<Longrightarrow> NL \<notin> set a \<Longrightarrow> CHR ''('' \<notin> set a \<Longrightarrow>
   NL \<notin> set p \<Longrightarrow> CHR '')'' \<notin> set p \<Longrightarrow> t = [] \<or> hd t = NL \<Longrightarrow>
     greedy is_dot
       (\<lambda>skipped r. if startswith r ''('' then match_args g1 g2 (drop 1 r) else None) acc
       (pre @ CHR ''('' # a @ CHR '')'' # p @ t)
       = Some (g1, g2, a)"
proof (induction pre arbitrary: acc)
  case Nil
  then show ?case by (auto simp: is_dot_simps open_none_inside match_args_found)
next
  case (Cons c pre)
  then show ?case by (auto simp: is_dot_simps)
qed

lemma re_search_here: "match_here s = Some m \<Longrightarrow> re_search s = Some m"
  by (cases s) simp_all

lemma search_shape:
  assumes ws: "\<forall>c\<in>set ws. is_space c"
    and name: "name \<noteq> []" "\<forall>c\<in>set name. is_word c"
    and pre: "pre = [] \<or> \<not> is_word (hd pre)" "NL \<notin> set pre"
    and a: "NL \<notin> set a" "CHR ''('' \<notin> set a"
    and p: "NL \<notin> set p" "CHR '')'' \<notin> set p"
    and t: "t = [] \<or> hd t = NL"
  shows "re_search (ws @ ''def '' @ name @ pre @ ''('' @ a @ '')'' @ p @ t) = Some (ws, name, a)"
proof -
  let ?r = "pre @ CHR ''('' # a @ CHR '')'' # p @ t"
  have 1: "match_open ws name ?r = Some (ws, name, a)"
    unfolding match_open_def using pre(2) a p t by (rule open_found)
  have stop: "?r = [] \<or> \<not> is_word (hd ?r)"
    using pre(1) by (cases pre) (auto simp: is_word_def)
  have 2: "match_name ws (name @ ?r) = Some (ws, name, a)"
    unfolding match_name_def using name(2) stop
    by (rule greedy_stop) (use name(1) 1 in simp)
  have 3: "match_here (ws @ ''def '' @ name @ ?r) = Some (ws, name, a)"
    unfolding match_here_def using ws
    by (rule greedy_stop) (use 2 in \<open>simp_all add: is_space_def\<close>)
  from re_search_here [OF 3] show ?thesis by simp
qed

subsection \<open>The cleaner on a line of a known shape\<close>

lemma hd_split_colon: "hd (split_from cur s '': '') = rev cur @ before_colon s"
  by (induction s arbitrary: cur rule: before_colon.induct) auto

lemma clean_args_spec: "clean_args args = spec_cleaned_args args"
  by (simp add: clean_args_def spec_cleaned_args_def split_str_def hd_split_colon)


lemma clean_shape:
  assumes "\<forall>c\<in>set ws. is_space c"
    and "name \<noteq> []" "\<forall>c\<in>set name. is_word c"
    and "pre = [] \<or> \<not> is_word (hd pre)" "NL \<notin> set pre"
    and "NL \<notin> set a" "CHR ''('' \<notin> set a"
    and "NL \<notin> set p" "CHR '')'' \<notin> set p"
    and "t = [] \<or> hd t = NL"
  shows "clean_function_definition (ws @ ''def '' @ name @ pre @ ''('' @ a @ '')'' @ p @ t)
    = ws @ ''def '' @ name @ ''('' @ clean_args a @ ''):'' @ [NL]"
  unfolding clean_function_definition_def
  by (simp only: search_shape [OF assms] option.case prod.case)


subsection \<open>A definition line through the whole chain\<close>







text \<open>
  C2, as the code has it. On such a line the third group of the match, which is the text
  handed to \<open>clean_args\<close>, is the text between the last opening parenthesis that has a
  closing one after it on the line and the last closing parenthesis of the line: of
  several parenthesized groups it is the last, not the first.
\<close>

theorem parameter_text_is_last_group:
  assumes "\<forall>c\<in>set ws. is_space c"
    and "name \<noteq> []" "\<forall>c\<in>set name. is_word c"
    and "pre = [] \<or> \<not> is_word (hd pre)" "NL \<notin> set pre"
    and "NL \<notin> set a" "CHR ''('' \<notin> set a"
    and "NL \<notin> set p" "CHR '')'' \<notin> set p"
    and "t = [] \<or> hd t = NL"
  shows "re_search (ws @ ''def '' @ name @ pre @ ''('' @ a @ '')'' @ p @ t) = Some (ws, name, a)
    \<and> clean_function_definition (ws @ ''def '' @ name @ pre @ ''('' @ a @ '')'' @ p @ t)
        = ws @ ''def '' @ name @ ''('' @ clean_args a @ ''):'' @ [NL]"
  using search_shape [OF assms] clean_shape [OF assms] by (rule conjI)

theorem parameter_text_is_last_group_witness:
  "list_all is_space ''  '' \<and> ''add'' \<noteq> [] \<and> list_all is_word ''add''
   \<and> \<not> is_word (hd ''(a: Int)'') \<and> NL \<notin> set ''(a: Int)''
   \<and> NL \<notin> set ''b: Int'' \<and> CHR ''('' \<notin> set ''b: Int''
   \<and> NL \<notin> set '': Int = {'' \<and> CHR '')'' \<notin> set '': Int = {''
   \<and> re_search (''  def add(a: Int)(b: Int): Int = {'' @ [NL]) = Some (''  '', ''add'', ''b: Int'')
   \<and> clean_function_definition (''  def add(a: Int)(b: Int): Int = {'' @ [NL])
       = ''  def add('' @ clean_args ''b: Int'' @ ''):'' @ [NL]"
  using parameter_text_is_last_group [of "''  ''" "''add''" "''(a: Int)''" "''b: Int''" "'': Int = {''" "[NL]"]
  by (simp add: is_space_def is_word_def)

text \<open>
  Two parameter lists on one line: the cleaner keeps the second and drops the first.
\<close>

theorem parameter_text_not_first_group:
  "re_search ''def add(a: Int)(b: Int): Int = {'' = Some ([], ''add'', ''b: Int'')
   \<and> clean_function_definition ''def add(a: Int)(b: Int): Int = {'' = ''def add(b):'' @ [NL]"
  by code_simp

subsection \<open>Lines the pattern does not match\<close>

lemma greedy_None_set:
  assumes "\<And>g r. set r \<subseteq> set s \<Longrightarrow> k g r = None"
  shows "greedy P k acc s = None"
  unfolding greedy_None_iff using assms by auto

lemma startswith_hd_mem: "startswith r (c # cs) \<Longrightarrow> c \<in> set r"
  by (cases r) auto

lemma match_args_no_close: "CHR '')'' \<notin> set s \<Longrightarrow> match_args g1 g2 s = None"
  unfolding match_args_def
  by (rule greedy_None_set) (auto dest: startswith_hd_mem)

lemma match_open_no_paren:
  assumes "CHR ''('' \<notin> set s \<or> CHR '')'' \<notin> set s"
  shows "match_open g1 g2 s = None"
  unfolding match_open_def
proof (rule greedy_None_set)
  fix g r assume sub: "set r \<subseteq> set s"
  show "(if startswith r ''('' then match_args g1 g2 (drop 1 r) else None) = None"
  proof (cases "startswith r ''(''")
    case True
    then have "CHR ''('' \<in> set s" using sub startswith_hd_mem by fastforce
    with assms have "CHR '')'' \<notin> set s" by simp
    with sub have "CHR '')'' \<notin> set (drop 1 r)" using set_drop_subset [of 1 r] by blast
    then show ?thesis by (simp add: match_args_no_close)
  next
    case False
    then show ?thesis by simp
  qed
qed

lemma match_name_no_paren:
  assumes "CHR ''('' \<notin> set s \<or> CHR '')'' \<notin> set s"
  shows "match_name g1 s = None"
  unfolding match_name_def
proof (rule greedy_None_set)
  fix g r assume "set r \<subseteq> set s"
  with assms have "CHR ''('' \<notin> set r \<or> CHR '')'' \<notin> set r" by blast
  then show "(if g = [] then None else match_open g1 g r) = None"
    by (simp add: match_open_no_paren)
qed

lemma match_here_no_paren:
  assumes "CHR ''('' \<notin> set s \<or> CHR '')'' \<notin> set s"
  shows "match_here s = None"
  unfolding match_here_def
proof (rule greedy_None_set)
  fix g r assume "set r \<subseteq> set s"
  with assms have "CHR ''('' \<notin> set (drop 4 r) \<or> CHR '')'' \<notin> set (drop 4 r)"
    using set_drop_subset [of 4 r] by blast
  then show "(if startswith r ''def '' then match_name g (drop 4 r) else None) = None"
    by (simp add: match_name_no_paren)
qed

lemma re_search_no_paren:
  "CHR ''('' \<notin> set s \<or> CHR '')'' \<notin> set s \<Longrightarrow> re_search s = None"
proof (induction s)
  case Nil
  then show ?case by (simp add: match_here_no_paren)
next
  case (Cons c s)
  then have "re_search s = None" by auto
  moreover have "match_here (c # s) = None" using Cons.prems by (rule match_here_no_paren)
  ultimately show ?case by simp
qed

text \<open>
  C8. When the pattern does not match a line, the cleaner returns the line as it is, and
  so does the definition stage; the model of the cleaner has no error branch. The
  pattern matches no line that lacks an opening or a closing parenthesis.
\<close>

theorem unmatched_line_unchanged:
  "(re_search s = None \<longrightarrow>
      clean_function_definition s = s \<and> clean_definitions [s] = [s])
   \<and> (CHR ''('' \<notin> set s \<or> CHR '')'' \<notin> set s \<longrightarrow> re_search s = None)"
  by (simp add: clean_function_definition_def clean_definitions_def re_search_no_paren)

theorem unmatched_line_unchanged_witness:
  "CHR ''('' \<notin> set ''  def answer: Int = 42''
   \<and> re_search ''  def answer: Int = 42'' = None
   \<and> clean_function_definition ''  def answer: Int = 42'' = ''  def answer: Int = 42''
   \<and> clean_definitions [''  def answer: Int = 42''] = [''  def answer: Int = 42'']"
  using unmatched_line_unchanged [of "''  def answer: Int = 42''"]
  by simp

subsection \<open>What a match holds\<close>

lemma greedy_Some_start:
  assumes "greedy P k [] s = Some m"
  obtains u v where "s = u @ v" "\<forall>c\<in>set u. P c" "k u v = Some m"
    "\<forall>x y. v = x @ y \<and> x \<noteq> [] \<and> (\<forall>c\<in>set x. P c) \<longrightarrow> k (u @ x) y = None"
  using greedy_Some [OF assms] by auto

lemma greedy_None_start:
  "greedy P k [] s = None \<longleftrightarrow>
     (\<forall>u v. s = u @ v \<and> (\<forall>c\<in>set u. P c) \<longrightarrow> k u v = None)"
  using greedy_None_iff [of P k "[]" s] by simp

lemma match_args_Some:
  assumes "match_args g1 g2 s = Some m"
  shows "\<exists>a r. s = a @ CHR '')'' # r \<and> NL \<notin> set a \<and> m = (g1, g2, a)"
proof -
  from assms [unfolded match_args_def]
  obtain u v where uv: "s = u @ v" "\<forall>c\<in>set u. is_dot c"
    "(if startswith v '')'' then Some (g1, g2, u) else None) = Some m"
    by (rule greedy_Some_start)
  from uv(3) have sw: "startswith v '')''" and m: "m = (g1, g2, u)"
    by (auto split: if_splits)
  from sw obtain r where "v = CHR '')'' # r" by (auto simp: startswith_iff)
  moreover from uv(2) have "NL \<notin> set u" by (auto simp: is_dot_def)
  ultimately show ?thesis using uv(1) m by blast
qed

lemma match_args_not_None:
  assumes "NL \<notin> set a"
  shows "match_args g1 g2 (a @ CHR '')'' # r) \<noteq> None"
proof
  assume "match_args g1 g2 (a @ CHR '')'' # r) = None"
  then have "\<forall>u v. a @ CHR '')'' # r = u @ v \<and> (\<forall>c\<in>set u. is_dot c) \<longrightarrow>
      (if startswith v '')'' then Some (g1, g2, u) else None) = None"
    unfolding match_args_def greedy_None_start .
  from this [rule_format, of a "CHR '')'' # r"] assms show False
    by (auto simp: is_dot_def)
qed

lemma match_open_Some:
  assumes "match_open g1 g2 s = Some (h1, h2, h3)"
  shows "h1 = g1 \<and> h2 = g2 \<and> NL \<notin> set h3 \<and> CHR ''('' \<notin> set h3"
proof -
  let ?k = "\<lambda>skipped r. if startswith r ''('' then match_args g1 g2 (drop 1 r) else None"
  from assms [unfolded match_open_def]
  obtain u v where uv: "s = u @ v" "\<forall>c\<in>set u. is_dot c" "?k u v = Some (h1, h2, h3)"
    and longest: "\<forall>x y. v = x @ y \<and> x \<noteq> [] \<and> (\<forall>c\<in>set x. is_dot c) \<longrightarrow> ?k (u @ x) y = None"
    by (rule greedy_Some_start)
  from uv(3) obtain v' where v: "v = CHR ''('' # v'"
    and ma: "match_args g1 g2 v' = Some (h1, h2, h3)"
    by (auto simp: startswith_iff split: if_splits)
  from match_args_Some [OF ma] obtain r where
    v': "v' = h3 @ CHR '')'' # r" and nl: "NL \<notin> set h3" and eq: "h1 = g1" "h2 = g2"
    by auto
  have "CHR ''('' \<notin> set h3"
  proof
    assume "CHR ''('' \<in> set h3"
    then obtain a1 a2 where h3: "h3 = a1 @ CHR ''('' # a2" by (auto simp: in_set_conv_decomp)
    let ?x = "CHR ''('' # a1" and ?y = "CHR ''('' # a2 @ CHR '')'' # r"
    have "v = ?x @ ?y" using v v' h3 by simp
    moreover have "\<forall>c\<in>set ?x. is_dot c" using nl h3 by (auto simp: is_dot_def)
    ultimately have "?k (u @ ?x) ?y = None" using longest by blast
    then have "match_args g1 g2 (a2 @ CHR '')'' # r) = None" by simp
    moreover have "NL \<notin> set a2" using nl h3 by simp
    ultimately show False using match_args_not_None by blast
  qed
  with nl eq show ?thesis by simp
qed

lemma match_name_Some:
  assumes "match_name g1 s = Some (h1, h2, h3)"
  shows "h1 = g1 \<and> h2 \<noteq> [] \<and> (\<forall>c\<in>set h2. is_word c) \<and> NL \<notin> set h3 \<and> CHR ''('' \<notin> set h3"
proof -
  from assms [unfolded match_name_def]
  obtain u v where uv: "\<forall>c\<in>set u. is_word c"
    "(if u = [] then None else match_open g1 u v) = Some (h1, h2, h3)"
    by (rule greedy_Some_start)
  from uv(2) have ne: "u \<noteq> []" and mo: "match_open g1 u v = Some (h1, h2, h3)"
    by (auto split: if_splits)
  from match_open_Some [OF mo] uv(1) ne show ?thesis by simp
qed

lemma match_here_Some:
  assumes "match_here s = Some (h1, h2, h3)"
  shows "(\<forall>c\<in>set h1. is_space c) \<and> h2 \<noteq> [] \<and> (\<forall>c\<in>set h2. is_word c)
    \<and> NL \<notin> set h3 \<and> CHR ''('' \<notin> set h3"
proof -
  from assms [unfolded match_here_def]
  obtain u v where uv: "\<forall>c\<in>set u. is_space c"
    "(if startswith v ''def '' then match_name u (drop 4 v) else None) = Some (h1, h2, h3)"
    by (rule greedy_Some_start)
  from uv(2) have "match_name u (drop 4 v) = Some (h1, h2, h3)"
    by (auto split: if_splits)
  from match_name_Some [OF this] uv(1) show ?thesis by simp
qed

lemma re_search_Some:
  "re_search s = Some (h1, h2, h3) \<Longrightarrow>
     (\<forall>c\<in>set h1. is_space c) \<and> h2 \<noteq> [] \<and> (\<forall>c\<in>set h2. is_word c)
     \<and> NL \<notin> set h3 \<and> CHR ''('' \<notin> set h3"
proof (induction s)
  case Nil
  then show ?case using match_here_Some [of "[]" h1 h2 h3] by simp
next
  case (Cons c s)
  show ?case
  proof (cases "match_here (c # s)")
    case None
    with Cons show ?thesis by simp
  next
    case (Some m)
    with Cons.prems have "match_here (c # s) = Some (h1, h2, h3)" by simp
    then show ?thesis by (rule match_here_Some)
  qed
qed

subsection \<open>Cleaning a parameter list twice\<close>

lemma split_from_nonempty: "split_from cur s sep \<noteq> []"
  by (induction cur s sep rule: split_from.induct) auto

lemma join_Cons: "ys \<noteq> [] \<Longrightarrow> join sep (x # ys) = x @ sep @ join sep ys"
  by (cases ys) simp_all

lemma startswith_drop: "startswith s p \<Longrightarrow> p @ drop (length p) s = s"
  by (induction s p rule: startswith.induct) auto

lemma join_split_from: "join sep (split_from cur s sep) = rev cur @ s"
proof (induction cur s sep rule: split_from.induct)
  case (1 cur sep)
  show ?case by simp
next
  case (2 cur c cs sep)
  show ?case
  proof (cases "sep \<noteq> [] \<and> startswith (c # cs) sep")
    case True
    then have "join sep (split_from cur (c # cs) sep)
        = rev cur @ sep @ join sep (split_from [] (drop (length sep) (c # cs)) sep)"
      by (simp add: join_Cons split_from_nonempty)
    also have "\<dots> = rev cur @ sep @ drop (length sep) (c # cs)"
      using 2(1) True by simp
    also have "\<dots> = rev cur @ c # cs"
      using True startswith_drop [of "c # cs" sep] by simp
    finally show ?thesis .
  next
    case False
    then show ?thesis using 2(2) by auto
  qed
qed

lemma join_split: "join sep (split_str s sep) = s"
  by (simp add: split_str_def join_split_from)

lemma has_colon_space_append:
  "has_colon_space (x @ CHR '','' # CHR '' '' # y) \<longleftrightarrow> has_colon_space x \<or> has_colon_space y"
  by (induction x rule: has_colon_space.induct) (auto, (cases y; simp)+)

lemma before_colon_first: "before_colon (d # s) = x # xs \<Longrightarrow> x = d"
  by (cases s) (auto split: if_splits)

lemma before_colon_clean: "\<not> has_colon_space (before_colon s)"
proof (induction s rule: before_colon.induct)
  case (3 c d s)
  then show ?case
    by (cases "before_colon (d # s)") (auto split: if_splits dest: before_colon_first)
qed simp_all

lemma before_colon_id: "\<not> has_colon_space s \<Longrightarrow> before_colon s = s"
  by (induction s rule: before_colon.induct) auto

lemma join_clean:
  "\<forall>q\<in>set qs. \<not> has_colon_space q \<Longrightarrow> \<not> has_colon_space (join '', '' qs)"
  by (induction "'', ''" qs rule: join.induct) (simp_all add: has_colon_space_append)

lemma has_colon_space_left: "has_colon_space x \<Longrightarrow> has_colon_space (x @ y)"
  by (induction x rule: has_colon_space.induct) auto

lemma has_colon_space_right: "has_colon_space y \<Longrightarrow> has_colon_space (x @ y)"
proof (induction x)
  case (Cons c x)
  then show ?case by (cases "x @ y") auto
qed simp

lemma split_from_clean:
  "\<not> has_colon_space (rev cur @ s) \<Longrightarrow> \<forall>q\<in>set (split_from cur s sep). \<not> has_colon_space q"
proof (induction cur s sep rule: split_from.induct)
  case (1 cur sep)
  then show ?case by simp
next
  case (2 cur c cs sep)
  show ?case
  proof (cases "sep \<noteq> [] \<and> startswith (c # cs) sep")
    case True
    from 2(3) have a: "\<not> has_colon_space (rev cur)"
      using has_colon_space_left by blast
    from 2(3) have "\<not> has_colon_space (c # cs)"
      using has_colon_space_right by blast
    then have "\<not> has_colon_space (sep @ drop (length sep) (c # cs))"
      using True startswith_drop [of "c # cs" sep] by simp
    then have "\<not> has_colon_space (rev [] @ drop (length sep) (c # cs))"
      using has_colon_space_right [of "drop (length sep) (c # cs)" sep] by auto
    with 2(1) True have "\<forall>q\<in>set (split_from [] (drop (length sep) (c # cs)) sep). \<not> has_colon_space q"
      by blast
    with a True show ?thesis by simp
  next
    case False
    with 2(2,3) show ?thesis by auto
  qed
qed

lemma spec_cleaned_args_clean: "\<not> has_colon_space (spec_cleaned_args a)"
  unfolding spec_cleaned_args_def by (rule join_clean) (simp add: before_colon_clean)

lemma spec_cleaned_args_idem: "spec_cleaned_args (spec_cleaned_args a) = spec_cleaned_args a"
proof -
  let ?c = "spec_cleaned_args a"
  have "\<forall>q\<in>set (split_str ?c '', ''). \<not> has_colon_space q"
    unfolding split_str_def using spec_cleaned_args_clean [of a]
    by (intro split_from_clean) simp
  then have "map before_colon (split_str ?c '', '') = split_str ?c '', ''"
    by (intro map_idI) (simp add: before_colon_id)
  then have "spec_cleaned_args ?c = join '', '' (split_str ?c '', '')"
    by (simp add: spec_cleaned_args_def)
  then show ?thesis by (simp add: join_split)
qed

lemma set_before_colon: "set (before_colon s) \<subseteq> set s"
  by (induction s rule: before_colon.induct) auto

lemma set_split_from: "q \<in> set (split_from cur s sep) \<Longrightarrow> set q \<subseteq> set cur \<union> set s"
proof (induction cur s sep arbitrary: q rule: split_from.induct)
  case (1 cur sep)
  then show ?case by auto
next
  case (2 cur c cs sep)
  show ?case
  proof (cases "sep \<noteq> [] \<and> startswith (c # cs) sep")
    case True
    with 2(3) have "q = rev cur \<or> q \<in> set (split_from [] (drop (length sep) (c # cs)) sep)"
      by simp
    then show ?thesis
    proof
      assume "q = rev cur" then show ?thesis by auto
    next
      assume "q \<in> set (split_from [] (drop (length sep) (c # cs)) sep)"
      from 2(1) [OF True this] have "set q \<subseteq> set (drop (length sep) (c # cs))" by simp
      then show ?thesis using set_drop_subset [of "length sep" "c # cs"] by blast
    qed
  next
    case False
    with 2(3) have "q \<in> set (split_from (c # cur) cs sep)" by auto
    from 2(2) [OF False this] show ?thesis by auto
  qed
qed

lemma set_join: "set (join sep qs) \<subseteq> set sep \<union> (\<Union>q\<in>set qs. set q)"
  by (induction sep qs rule: join.induct) auto

lemma set_spec_cleaned_args:
  "set (spec_cleaned_args a) \<subseteq> set a \<union> {CHR '','', CHR '' ''}"
proof
  fix c assume "c \<in> set (spec_cleaned_args a)"
  then have "c \<in> set '', '' \<union> (\<Union>q\<in>set (map before_colon (split_str a '', '')). set q)"
    unfolding spec_cleaned_args_def using set_join by blast
  then show "c \<in> set a \<union> {CHR '','', CHR '' ''}"
  proof
    assume "c \<in> set '', ''" then show ?thesis by auto
  next
    assume "c \<in> (\<Union>q\<in>set (map before_colon (split_str a '', '')). set q)"
    then obtain p where p: "p \<in> set (split_str a '', '')" "c \<in> set (before_colon p)" by auto
    from p(2) have "c \<in> set p" using set_before_colon by blast
    moreover from p(1) have "set p \<subseteq> set a"
      unfolding split_str_def using set_split_from [of p "[]" a] by simp
    ultimately show ?thesis by blast
  qed
qed

text \<open>
  C5. The signature cleaner gives back unchanged every line that it has produced: for any
  line, cleaning the cleaned line returns the cleaned line. A line that the pattern does
  not match is its own cleaned line; a matched one becomes a definition line whose
  parameter list holds no \<open>": "\<close> and no opening parenthesis, and on that line the pattern
  finds the same whitespace, the same name and the same parameter list again.
\<close>

theorem clean_function_definition_idempotent:
  "clean_function_definition (clean_function_definition s) = clean_function_definition s"
proof (cases "re_search s")
  case None
  then show ?thesis by (simp add: clean_function_definition_def)
next
  case (Some m)
  obtain g1 g2 g3 where m: "m = (g1, g2, g3)" by (cases m) auto
  with Some have found: "re_search s = Some (g1, g2, g3)" by simp
  let ?c = "clean_args g3"
  have once: "clean_function_definition s
      = g1 @ ''def '' @ g2 @ [] @ ''('' @ ?c @ '')'' @ '':'' @ [NL]"
    using found by (simp add: clean_function_definition_def)
  from re_search_Some [OF found] have g: "\<forall>c\<in>set g1. is_space c" "g2 \<noteq> []"
    "\<forall>c\<in>set g2. is_word c" "NL \<notin> set g3" "CHR ''('' \<notin> set g3"
    by simp_all
  have c: "NL \<notin> set ?c" "CHR ''('' \<notin> set ?c"
    using g(4,5) set_spec_cleaned_args [of g3] by (auto simp: clean_args_spec)
  have "clean_function_definition (g1 @ ''def '' @ g2 @ [] @ ''('' @ ?c @ '')'' @ '':'' @ [NL])
      = g1 @ ''def '' @ g2 @ ''('' @ clean_args ?c @ ''):'' @ [NL]"
    using g(1,2,3) _ _ c by (rule clean_shape) simp_all
  also have "clean_args ?c = ?c"
    by (simp add: clean_args_spec spec_cleaned_args_idem)
  finally show ?thesis unfolding once by simp
qed

end
